theory Spec2Isabelle
  imports Complex_Main
begin

section \<open>JavaScript values and calls with effects\<close>

text \<open>
  The values the gulpfile's accessors hold. \<open>Undefined\<close> is what a declared but
  unassigned variable holds (\<^verbatim>\<open>var value;\<close>), what \<^verbatim>\<open>process.env.X\<close> gives for a
  variable that is not set, and what an array gives outside its range. The accessors
  of the file hold strings, booleans and one array; \<open>Num\<close> stands for the integers.
\<close>

datatype jsval =
    Undefined
  | Null
  | Bool bool
  | Num int
  | Str string
  | Arr "jsval list"

text \<open>
  A call either returns a value or throws. \<open>TypeError\<close> is what \<^verbatim>\<open>path.join\<close> throws
  for an argument that is not a string; \<open>Thrown v\<close> is \<^verbatim>\<open>throw v\<close>.
\<close>

datatype error = TypeError | Thrown jsval

type_synonym ('a, 's) js = "'s \<Rightarrow> (error + 'a) \<times> 's"

definition ret :: "'a \<Rightarrow> ('a, 's) js" where
  "ret v = (\<lambda>s. (Inr v, s))"

definition bind :: "('a, 's) js \<Rightarrow> ('a \<Rightarrow> ('b, 's) js) \<Rightarrow> ('b, 's) js" where
  "bind m k = (\<lambda>s. case m s of (Inl e, s') \<Rightarrow> (Inl e, s') | (Inr v, s') \<Rightarrow> k v s')"

section \<open>The memoizing accessor \<^verbatim>\<open>val\<close>\<close>

text \<open>
  \<^verbatim>\<open>
  val = function(fn) {
    var value;
    return function() {
      if (value === undefined) { value = fn(); }
      return value;
    };
  };
  \<close>
  The closure variable \<^verbatim>\<open>value\<close> is private to the accessor: the state of an accessor
  is the pair of that variable and of the rest of the world \<open>'w\<close>, on which the
  constructor \<open>fn\<close> works. A constructor that throws leaves \<^verbatim>\<open>value\<close> as it was.
  \<open>val fn\<close> is the accessor; \<open>(Undefined, w)\<close> is its state when \<^verbatim>\<open>val(fn)\<close> returns.
\<close>

definition val :: "('w \<Rightarrow> (error + jsval) \<times> 'w) \<Rightarrow> jsval \<times> 'w \<Rightarrow> (error + jsval) \<times> (jsval \<times> 'w)" where
  "val fn = (\<lambda>(value, w).
     if value = Undefined then
       (case fn w of
          (Inl e, w') \<Rightarrow> (Inl e, (value, w'))
        | (Inr v, w') \<Rightarrow> (Inr v, (v, w')))
     else (Inr value, (value, w)))"

text \<open>\<open>calls k acc s\<close>: the accessor called \<open>k\<close> times in a row, with the results in order.\<close>

fun calls :: "nat \<Rightarrow> ('s \<Rightarrow> 'r \<times> 's) \<Rightarrow> 's \<Rightarrow> 'r list \<times> 's" where
  "calls 0 acc s = ([], s)"
| "calls (Suc k) acc s =
     (case acc s of (r, s') \<Rightarrow> (case calls k acc s' of (rs, s'') \<Rightarrow> (r # rs, s'')))"

text \<open>
  A constructor instrumented with a counter of its invocations: the world of
  \<open>counted fn\<close> is the number of times it has run, with the world of \<open>fn\<close>.
\<close>

definition counted :: "('w \<Rightarrow> (error + jsval) \<times> 'w) \<Rightarrow> nat \<times> 'w \<Rightarrow> (error + jsval) \<times> (nat \<times> 'w)" where
  "counted fn = (\<lambda>(n, w). case fn w of (r, w') \<Rightarrow> (r, (Suc n, w')))"

text \<open>
  A constructor with a side effect, as \<^verbatim>\<open>function() { return log[n++]; }\<close> on an empty
  \<^verbatim>\<open>log\<close> filled later: \<^verbatim>\<open>undefined\<close> at its first run, the number of the run after.
\<close>

definition tick :: "nat \<Rightarrow> (error + jsval) \<times> nat" where
  "tick n = (Inr (if n = 0 then Undefined else Num (int n)), Suc n)"

section \<open>Strings and paths\<close>

text \<open>\<^verbatim>\<open>Array.prototype.join\<close> on an array of strings.\<close>

fun join :: "string \<Rightarrow> string list \<Rightarrow> string" where
  "join sep [] = []"
| "join sep [x] = x"
| "join sep (x # y # ys) = x @ sep @ join sep (y # ys)"

text \<open>The decimal digits of a natural number, for \<^verbatim>\<open>String(n)\<close>.\<close>

fun digits :: "nat \<Rightarrow> string" where
  "digits n =
     (if n < 10 then [char_of (48 + n)]
      else digits (n div 10) @ [char_of (48 + n mod 10)])"

text \<open>
  JavaScript's conversion of a value to a string, as \<^verbatim>\<open>'{' + x + ','\<close> applies it. An
  array joins its elements with a comma, \<^verbatim>\<open>null\<close> and \<^verbatim>\<open>undefined\<close> elements as
  the empty string.
\<close>

fun to_string :: "jsval \<Rightarrow> string" where
  "to_string Undefined = ''undefined''"
| "to_string Null = ''null''"
| "to_string (Bool b) = (if b then ''true'' else ''false'')"
| "to_string (Num n) = (if n < 0 then ''-'' @ digits (nat (- n)) else digits (nat n))"
| "to_string (Str s) = s"
| "to_string (Arr xs) =
     join '','' (map (\<lambda>x. if x = Undefined \<or> x = Null then [] else to_string x) xs)"

text \<open>\<^verbatim>\<open>s.split('/')\<close>: the segments between the slashes, empty ones included.\<close>

fun split_slash :: "string \<Rightarrow> string list" where
  "split_slash [] = [[]]"
| "split_slash (c # cs) =
     (if c = CHR ''/'' then [] # split_slash cs
      else (case split_slash cs of
              [] \<Rightarrow> [[c]]
            | seg # segs \<Rightarrow> (c # seg) # segs))"

text \<open>
  Node's \<^verbatim>\<open>path.join\<close> on a POSIX platform (separator \<^verbatim>\<open>/\<close>), a built-in of the
  runtime: the non-empty arguments joined by a slash, then normalized. Normalizing drops
  empty and \<^verbatim>\<open>.\<close> segments and resolves \<^verbatim>\<open>..\<close> against the segment before it; a
  relative path may keep leading \<^verbatim>\<open>..\<close> segments, an absolute one drops them. An
  argument that is not a string is a \<^verbatim>\<open>TypeError\<close>.
\<close>

definition normalize_step :: "bool \<Rightarrow> string list \<Rightarrow> string \<Rightarrow> string list" where
  "normalize_step allowAboveRoot res seg =
     (if seg = [] \<or> seg = ''.'' then res
      else if seg = ''..'' then
        (if res \<noteq> [] \<and> last res \<noteq> ''..'' then butlast res
         else if allowAboveRoot then res @ [seg]
         else res)
      else res @ [seg])"

definition normalize :: "string \<Rightarrow> string" where
  "normalize p =
     (if p = [] then ''.''
      else
        let isAbsolute = (hd p = CHR ''/'');
            trailingSlash = (last p = CHR ''/'');
            body = join ''/'' (foldl (normalize_step (\<not> isAbsolute)) [] (split_slash p))
        in if body = [] then (if isAbsolute then ''/'' else if trailingSlash then ''./'' else ''.'')
           else (if isAbsolute then ''/'' else []) @ body @ (if trailingSlash then ''/'' else []))"

fun is_Str :: "jsval \<Rightarrow> bool" where
  "is_Str (Str s) = True"
| "is_Str v = False"

definition path_join :: "jsval list \<Rightarrow> error + jsval" where
  "path_join args =
     (if list_all is_Str args
      then Inr (Str (normalize (join ''/'' (filter (\<lambda>s. s \<noteq> []) (map to_string args)))))
      else Inl TypeError)"

text \<open>The result of a call that has no effect, as a step of a constructor.\<close>

definition lift :: "error + 'a \<Rightarrow> ('a, 's) js" where
  "lift r = (\<lambda>s. (r, s))"

section \<open>The state of the process\<close>

text \<open>
  One cell for the private \<^verbatim>\<open>value\<close> of each accessor that \<^verbatim>\<open>env\<close> and \<^verbatim>\<open>globs\<close>
  build with \<^verbatim>\<open>val\<close> (\<^verbatim>\<open>env.project\<close>, which wraps a call of the TypeScript plugin
  only, is left out).
\<close>

datatype cell =
    E_isTest | E_isTravis | E_name | E_pagesUrl | E_task
  | G_build | G_bundle | G_coverage | G_dist | G_doc | G_docs | G_dts | G_gulp | G_lib
  | G_scripts | G_src | G_test | G_tests | G_ts | G_types

text \<open>
  \<open>store\<close>: the cells. \<open>gulp_seq\<close>: \<^verbatim>\<open>gulp.seq\<close>, the task sequence of the current run
  (empty until a run starts). \<open>process_env\<close>: the environment variables.
  \<open>process_cwd\<close>: the working directory. \<open>files\<close>: the files inside the working
  directory, by relative path.
\<close>

record state =
  store :: "cell \<Rightarrow> jsval"
  gulp_seq :: "string list"
  process_env :: "string \<Rightarrow> string option"
  process_cwd :: string
  files :: "string \<Rightarrow> string option"

text \<open>The state once the gulpfile is loaded: every accessor built, none called.\<close>

definition loaded :: "(string \<Rightarrow> string option) \<Rightarrow> string \<Rightarrow> (string \<Rightarrow> string option) \<Rightarrow> state" where
  "loaded env cwd fs =
     \<lparr>store = (\<lambda>c. Undefined), gulp_seq = [], process_env = env, process_cwd = cwd, files = fs\<rparr>"

text \<open>
  The accessor \<^verbatim>\<open>val(fn)\<close> whose private \<^verbatim>\<open>value\<close> is the cell \<open>c\<close>: \<open>val\<close> on that
  cell and the state, the cell written back.
\<close>

definition cell_acc :: "cell \<Rightarrow> (jsval, state) js \<Rightarrow> (jsval, state) js" where
  "cell_acc c fn =
     (\<lambda>s. case val fn (store s c, s) of
             (r, (v, s')) \<Rightarrow> (r, s'\<lparr>store := (store s')(c := v)\<rparr>))"

section \<open>The task environment \<^verbatim>\<open>env\<close>\<close>

text \<open>
  \<^verbatim>\<open>gulp.seq[gulp.seq.length - 1]\<close>: the last element, \<^verbatim>\<open>undefined\<close> on the empty
  array (index -1).
\<close>

definition env_task :: "(jsval, state) js" where
  "env_task =
     cell_acc E_task
       (\<lambda>s. (Inr (if gulp_seq s = [] then Undefined else Str (last (gulp_seq s))), s))"

definition env_isTest :: "(jsval, state) js" where
  "env_isTest = cell_acc E_isTest (bind env_task (\<lambda>t. ret (Bool (t = Str ''test''))))"

definition env_isTravis :: "(jsval, state) js" where
  "env_isTravis =
     cell_acc E_isTravis (\<lambda>s. (Inr (Bool (process_env s ''TRAVIS'' \<noteq> None)), s))"

definition env_name :: "(jsval, state) js" where
  "env_name = cell_acc E_name (ret (Str ''tsutil''))"

definition env_pagesUrl :: "(jsval, state) js" where
  "env_pagesUrl =
     cell_acc E_pagesUrl
       (\<lambda>s. (Inr (case process_env s ''PAGES_URL'' of None \<Rightarrow> Undefined | Some u \<Rightarrow> Str u), s))"

section \<open>The file globs \<^verbatim>\<open>globs\<close>\<close>

definition globs_build :: "(jsval, state) js" where
  "globs_build = cell_acc G_build (ret (Str ''_build''))"

definition globs_bundle :: "(jsval, state) js" where
  "globs_bundle = cell_acc G_bundle (ret (Str ''index.d.ts''))"

definition globs_coverage :: "(jsval, state) js" where
  "globs_coverage =
     cell_acc G_coverage (lift (path_join [Str ''coverage'', Str ''**'', Str ''lcov.info'']))"

definition globs_dist :: "(jsval, state) js" where
  "globs_dist = cell_acc G_dist (\<lambda>s. (Inr (Str (process_cwd s)), s))"

definition globs_doc :: "(jsval, state) js" where
  "globs_doc = cell_acc G_doc (ret (Str ''doc''))"

definition globs_docs :: "(jsval, state) js" where
  "globs_docs =
     cell_acc G_docs (bind globs_doc (\<lambda>d. lift (path_join [d, Str ''**'', Str ''*''])))"

definition globs_gulp :: "(jsval, state) js" where
  "globs_gulp = cell_acc G_gulp (ret (Str ''gulpfile.js''))"

definition globs_src :: "(jsval, state) js" where
  "globs_src = cell_acc G_src (ret (Str ''src''))"

definition globs_test :: "(jsval, state) js" where
  "globs_test = cell_acc G_test (ret (Str ''test''))"

definition globs_lib :: "(jsval, state) js" where
  "globs_lib =
     cell_acc G_lib (bind globs_src (\<lambda>a. lift (path_join [a, Str ''**'', Str ''*.ts''])))"

definition globs_scripts :: "(jsval, state) js" where
  "globs_scripts =
     cell_acc G_scripts
       (bind globs_build (\<lambda>b. bind globs_src (\<lambda>a.
          lift (path_join [b, a, Str ''**'', Str ''*.js'']))))"

definition globs_tests :: "(jsval, state) js" where
  "globs_tests =
     cell_acc G_tests
       (bind globs_build (\<lambda>b. bind globs_test (\<lambda>a.
          lift (path_join [b, a, Str ''**'', Str ''*.js'']))))"

definition globs_ts :: "(jsval, state) js" where
  "globs_ts =
     cell_acc G_ts
       (bind globs_src (\<lambda>a. bind globs_test (\<lambda>b.
          lift (path_join
            [Str (''{'' @ to_string a @ '','' @ to_string b @ ''}''), Str ''**'', Str ''*.ts'']))))"

definition globs_types :: "(jsval, state) js" where
  "globs_types =
     cell_acc G_types
       (bind globs_build (\<lambda>b. bind globs_src (\<lambda>a.
          lift (path_join [b, a, Str ''**'', Str ''*.d.ts'']))))"

definition globs_dts :: "(jsval, state) js" where
  "globs_dts =
     cell_acc G_dts
       (bind globs_ts (\<lambda>t. ret (Arr [t, Str ''lib/**/*.d.ts'', Str ''typings/**/*.d.ts''])))"

text \<open>The accessor of a cell, and a history of accessor calls, oldest first.\<close>

fun access :: "cell \<Rightarrow> (jsval, state) js" where
  "access E_isTest = env_isTest"
| "access E_isTravis = env_isTravis"
| "access E_name = env_name"
| "access E_pagesUrl = env_pagesUrl"
| "access E_task = env_task"
| "access G_build = globs_build"
| "access G_bundle = globs_bundle"
| "access G_coverage = globs_coverage"
| "access G_dist = globs_dist"
| "access G_doc = globs_doc"
| "access G_docs = globs_docs"
| "access G_dts = globs_dts"
| "access G_gulp = globs_gulp"
| "access G_lib = globs_lib"
| "access G_scripts = globs_scripts"
| "access G_src = globs_src"
| "access G_test = globs_test"
| "access G_tests = globs_tests"
| "access G_ts = globs_ts"
| "access G_types = globs_types"

fun accesses :: "cell list \<Rightarrow> state \<Rightarrow> state" where
  "accesses [] s = s"
| "accesses (c # cs) s = accesses cs (snd (access c s))"

section \<open>The task table and the order of a run\<close>

text \<open>
  The tasks the gulpfile declares with \<^verbatim>\<open>gulp.task(name, deps, fn)\<close>, in the order
  of the declarations, each with its prerequisites. \<^verbatim>\<open>doc\<close>, \<^verbatim>\<open>lint\<close> and \<^verbatim>\<open>test\<close>
  have no action; \<^verbatim>\<open>clean\<close>, \<^verbatim>\<open>format\<close>, \<^verbatim>\<open>jshint\<close> and \<^verbatim>\<open>tslint\<close> have no
  prerequisites.
\<close>

definition gulp_tasks :: "(string \<times> string list) list" where
  "gulp_tasks =
    [(''doc'', [''pages'']),
     (''lint'', [''jshint'', ''tslint'']),
     (''test'', [''coverage'', ''lint'']),
     (''bundle'', [''copy'']),
     (''clean'', []),
     (''copy'', [''scripts'']),
     (''coverage'', [''spec'']),
     (''format'', []),
     (''jshint'', []),
     (''pages'', [''typedoc'']),
     (''scripts'', [''clean'', ''tslint'']),
     (''spec'', [''scripts'']),
     (''tslint'', []),
     (''typedoc'', [''clean''])]"

definition deps_of :: "(string \<times> string list) list \<Rightarrow> string \<Rightarrow> string list" where
  "deps_of tasks t = (case map_of tasks t of None \<Rightarrow> [] | Some dep \<Rightarrow> dep)"

text \<open>\<open>(t, d)\<close> is in the relation when \<open>d\<close> is a declared prerequisite of \<open>t\<close>.\<close>

definition prereq_rel :: "(string \<times> string list) list \<Rightarrow> (string \<times> string) set" where
  "prereq_rel tasks = {(t, d). d \<in> set (deps_of tasks t)}"

text \<open>The transitive prerequisites of a task.\<close>

definition prereqs_of :: "(string \<times> string list) list \<Rightarrow> string \<Rightarrow> string set" where
  "prereqs_of tasks t = (prereq_rel tasks)\<^sup>+ `` {t}"

text \<open>
  \<open>prereqs_first tasks done seq\<close>: in the sequence \<open>seq\<close>, run after the tasks \<open>done\<close>,
  every prerequisite of a task stands before the task.
\<close>

fun prereqs_first :: "(string \<times> string list) list \<Rightarrow> string list \<Rightarrow> string list \<Rightarrow> bool" where
  "prereqs_first tasks done [] = True"
| "prereqs_first tasks done (t # ts) =
     (list_all (\<lambda>d. d \<in> set done) (deps_of tasks t) \<and> prereqs_first tasks (done @ [t]) ts)"

datatype run_error = UnknownTaskError string | CyclicDependencyError "string list"

text \<open>
  Modelled from the spec: the task runner (gulp's orchestrator, which the gulpfile
  requires and which is not part of this repository's sources). It resolves the names
  to run into the sequence of a run: the transitive closure of the prerequisites in
  declaration order, each task visited once and placed after its prerequisites
  (\<open>results\<close> holds the tasks placed so far, first visit first). A name that is not
  declared is an \<open>UnknownTaskError\<close>; a task met again below itself (\<open>nest\<close> holds the
  tasks being resolved) is a \<open>CyclicDependencyError\<close>.
\<close>

function sequence :: "(string \<times> string list) list \<Rightarrow> string list \<Rightarrow> string list \<Rightarrow> string list
    \<Rightarrow> run_error + string list" where
  "sequence tasks [] results nest = Inr results"
| "sequence tasks (name # names) results nest =
     (if name \<in> set results then sequence tasks names results nest
      else (case map_of tasks name of
          None \<Rightarrow> Inl (UnknownTaskError name)
        | Some dep \<Rightarrow>
            if name \<in> set nest then Inl (CyclicDependencyError (nest @ [name]))
            else (case sequence tasks dep results (nest @ [name]) of
                Inl e \<Rightarrow> Inl e
              | Inr results' \<Rightarrow> sequence tasks names (results' @ [name]) nest)))"
  by pat_completeness auto
termination
proof -
  let ?left = "\<lambda>(tasks :: (string \<times> string list) list, names :: string list,
                   results :: string list, nest :: string list).
                 card (fst ` set tasks - set nest)"
  let ?todo = "\<lambda>(tasks :: (string \<times> string list) list, names :: string list,
                   results :: string list, nest :: string list).
                 length names"
  show ?thesis
  proof (relation "measures [?left, ?todo]")
    show "wf (measures [?left, ?todo])"
      by simp
  next
    fix tasks :: "(string \<times> string list) list" and name names results nest
    show "((tasks, names, results, nest), (tasks, name # names, results, nest))
            \<in> measures [?left, ?todo]"
      by simp
  next
    fix tasks :: "(string \<times> string list) list" and name names results nest dep
    assume declared: "map_of tasks name = Some dep" and fresh: "name \<notin> set nest"
    from declared have "name \<in> fst ` set tasks"
      by (metis map_of_eq_None_iff option.distinct(1))
    with fresh have "fst ` set tasks - set (nest @ [name]) \<subset> fst ` set tasks - set nest"
      by auto
    then have "card (fst ` set tasks - set (nest @ [name])) < card (fst ` set tasks - set nest)"
      by (intro psubset_card_mono) auto
    then show "((tasks, dep, results, nest @ [name]), (tasks, name # names, results, nest))
                 \<in> measures [?left, ?todo]"
      by simp
  next
    fix tasks :: "(string \<times> string list) list" and name names results nest
      and results' :: "string list"
    show "((tasks, names, results' @ [name], nest), (tasks, name # names, results, nest))
            \<in> measures [?left, ?todo]"
      by simp
  qed
qed

text \<open>
  Modelled from the spec: the start of a run of one requested task. The runner resolves
  the sequence and records it in its run context, \<^verbatim>\<open>gulp.seq\<close>, before any action
  executes; the actions of the run work on the state this returns.
\<close>

definition start :: "(string \<times> string list) list \<Rightarrow> string \<Rightarrow> state \<Rightarrow> run_error + state" where
  "start tasks name s =
     (case sequence tasks [name] [] [] of
        Inl e \<Rightarrow> Inl e
      | Inr seq \<Rightarrow> Inr (s\<lparr>gulp_seq := seq\<rparr>))"

section \<open>The actions of the tasks\<close>

subsection \<open>\<^verbatim>\<open>clean\<close>\<close>

text \<open>\<open>inside d p\<close>: the path \<open>p\<close> is the directory \<open>d\<close> or lies in it.\<close>

definition inside :: "string \<Rightarrow> string \<Rightarrow> bool" where
  "inside d p = (p = d \<or> take (Suc (length d)) p = d @ ''/'')"

text \<open>
  The plugin \<^verbatim>\<open>del\<close> on patterns that are plain paths, as \<^verbatim>\<open>clean\<close> calls it: each
  path is removed with everything in it.
\<close>

definition del :: "jsval list \<Rightarrow> (unit, state) js" where
  "del patterns =
     (\<lambda>s. if list_all is_Str patterns
           then (Inr (),
                 s\<lparr>files := (\<lambda>p. if list_ex (\<lambda>d. inside (to_string d) p) patterns
                                   then None else files s p)\<rparr>)
           else (Inl TypeError, s))"


subsection \<open>\<^verbatim>\<open>copy\<close> and \<^verbatim>\<open>pages\<close>\<close>

text \<open>
  \<^verbatim>\<open>copy\<close>: the globs it gives to \<^verbatim>\<open>gulp.src\<close> and the directory it gives to
  \<^verbatim>\<open>gulp.dest\<close>. \<^verbatim>\<open>pages\<close>: the glob it gives to \<^verbatim>\<open>gulp.src\<close> and the
  \<^verbatim>\<open>remoteUrl\<close> it gives to the publishing plugin.
\<close>

definition copy_action :: "(jsval \<times> jsval, state) js" where
  "copy_action =
     bind globs_scripts (\<lambda>a. bind globs_types (\<lambda>b. bind globs_dist (\<lambda>d.
       ret (Arr [a, b], d))))"

definition pages_action :: "(jsval \<times> jsval, state) js" where
  "pages_action = bind globs_docs (\<lambda>d. bind env_pagesUrl (\<lambda>u. ret (d, u)))"

subsection \<open>\<^verbatim>\<open>scripts\<close>\<close>









subsection \<open>\<^verbatim>\<open>spec\<close>\<close>




text \<open>
  A state the process reaches: the gulpfile loaded, the task sequence \<open>seq\<close> in
  \<^verbatim>\<open>gulp.seq\<close> (empty before a run), then any history \<open>cs\<close> of accessor calls.
\<close>

definition reached :: "cell list \<Rightarrow> string list \<Rightarrow> (string \<Rightarrow> string option) \<Rightarrow> string
    \<Rightarrow> (string \<Rightarrow> string option) \<Rightarrow> state" where
  "reached cs seq env cwd fs = accesses cs ((loaded env cwd fs)\<lparr>gulp_seq := seq\<rparr>)"

section \<open>The invariant of the store\<close>

text \<open>
  What the accessors read outside the cells: the task sequence, the environment
  variables and the working directory.
\<close>

definition world :: "state \<Rightarrow> string list \<times> (string \<Rightarrow> string option) \<times> string" where
  "world s = (gulp_seq s, process_env s, process_cwd s)"

text \<open>The value the constructor of each cell computes in a given world.\<close>

fun cell_value :: "string list \<times> (string \<Rightarrow> string option) \<times> string \<Rightarrow> cell \<Rightarrow> jsval" where
  "cell_value (seq, env, cwd) E_isTest = Bool (seq \<noteq> [] \<and> last seq = ''test'')"
| "cell_value (seq, env, cwd) E_isTravis = Bool (env ''TRAVIS'' \<noteq> None)"
| "cell_value (seq, env, cwd) E_name = Str ''tsutil''"
| "cell_value (seq, env, cwd) E_pagesUrl =
     (case env ''PAGES_URL'' of None \<Rightarrow> Undefined | Some u \<Rightarrow> Str u)"
| "cell_value (seq, env, cwd) E_task = (if seq = [] then Undefined else Str (last seq))"
| "cell_value (seq, env, cwd) G_build = Str ''_build''"
| "cell_value (seq, env, cwd) G_bundle = Str ''index.d.ts''"
| "cell_value (seq, env, cwd) G_coverage = Str ''coverage/**/lcov.info''"
| "cell_value (seq, env, cwd) G_dist = Str cwd"
| "cell_value (seq, env, cwd) G_doc = Str ''doc''"
| "cell_value (seq, env, cwd) G_docs = Str ''doc/**/*''"
| "cell_value (seq, env, cwd) G_dts =
     Arr [Str ''{src,test}/**/*.ts'', Str ''lib/**/*.d.ts'', Str ''typings/**/*.d.ts'']"
| "cell_value (seq, env, cwd) G_gulp = Str ''gulpfile.js''"
| "cell_value (seq, env, cwd) G_lib = Str ''src/**/*.ts''"
| "cell_value (seq, env, cwd) G_scripts = Str ''_build/src/**/*.js''"
| "cell_value (seq, env, cwd) G_src = Str ''src''"
| "cell_value (seq, env, cwd) G_test = Str ''test''"
| "cell_value (seq, env, cwd) G_tests = Str ''_build/test/**/*.js''"
| "cell_value (seq, env, cwd) G_ts = Str ''{src,test}/**/*.ts''"
| "cell_value (seq, env, cwd) G_types = Str ''_build/src/**/*.d.ts''"

text \<open>
  The invariant: a cell is unset or holds what its constructor computes in the world
  of the state. \<open>returns W m v\<close>: from a state of the world \<open>W\<close> that satisfies the
  invariant, the call \<open>m\<close> returns \<open>v\<close>, keeps the invariant, the world and the files.
\<close>

definition store_ok :: "state \<Rightarrow> bool" where
  "store_ok s = (\<forall>c. store s c = Undefined \<or> store s c = cell_value (world s) c)"

definition returns :: "string list \<times> (string \<Rightarrow> string option) \<times> string \<Rightarrow> ('a, state) js \<Rightarrow> 'a \<Rightarrow> bool" where
  "returns W m v =
     (\<forall>s. store_ok s \<and> world s = W \<longrightarrow>
        (\<exists>s'. m s = (Inr v, s') \<and> store_ok s' \<and> world s' = W \<and> files s' = files s))"

section \<open>Theorems\<close>

subsection \<open>The memoizing accessor\<close>

lemma val_set: "v \<noteq> Undefined \<Longrightarrow> val fn (v, w) = (Inr v, (v, w))"
  by (simp add: val_def)

lemma calls_val_set:
  "v \<noteq> Undefined \<Longrightarrow> calls k (val fn) (v, w) = (replicate k (Inr v), (v, w))"
  by (induction k) (simp_all add: val_set)

lemma val_unset_returns:
  "fn w = (Inr v, w') \<Longrightarrow> val fn (Undefined, w) = (Inr v, (v, w'))"
  by (simp add: val_def)

lemma val_unset_throws:
  "fn w = (Inl e, w') \<Longrightarrow> val fn (Undefined, w) = (Inl e, (Undefined, w'))"
  by (simp add: val_def)

text \<open>
  C1, as amended. For a constructor whose first run returns a value other than
  \<^verbatim>\<open>undefined\<close>: however often the accessor is called, every call returns that value,
  the constructor has run exactly once (its counter is 1), and the world is the one its
  single run left. The value may be falsy: \<^verbatim>\<open>null\<close>, \<^verbatim>\<open>false\<close>, \<^verbatim>\<open>0\<close>, \<^verbatim>\<open>''\<close>.
\<close>

theorem val_runs_once:
  assumes "fn w = (Inr v, w')" and "v \<noteq> Undefined"
  shows "calls (Suc k) (val (counted fn)) (Undefined, (0, w)) =
           (replicate (Suc k) (Inr v), (v, (1, w')))"
proof -
  from assms(1) have "counted fn (0, w) = (Inr v, (1, w'))"
    by (simp add: counted_def)
  then have "val (counted fn) (Undefined, (0, w)) = (Inr v, (v, (1, w')))"
    by (rule val_unset_returns)
  then show ?thesis
    using assms(2) by (simp add: calls_val_set)
qed

theorem val_runs_once_witness:
  "calls 3 (val (counted (ret (Num 0)))) (Undefined, (0, ())) =
     ([Inr (Num 0), Inr (Num 0), Inr (Num 0)], (Num 0, (1, ())))"
  using val_runs_once [of "ret (Num 0)" "()" "Num 0" "()" 2]
  by (simp add: ret_def numeral_3_eq_3)

text \<open>
  C1 as stated fails for a constructor that returns \<^verbatim>\<open>undefined\<close>: nothing is stored,
  the second call runs the constructor again (the counter is 2) and here returns another
  value than the first.
\<close>

theorem val_undefined_runs_again:
  "calls 2 (val (counted tick)) (Undefined, (0, 0)) =
     ([Inr Undefined, Inr (Num 1)], (Num 1, (2, 2)))"
  by (simp add: numeral_2_eq_2 val_def counted_def tick_def)

subsection \<open>The coverage report of \<^verbatim>\<open>spec\<close>\<close>




subsection \<open>The order of a run\<close>

lemma sequence_Cons_cases:
  assumes "sequence tasks (name # names) results nest = Inr res"
  obtains
    (seen) "name \<in> set results" "sequence tasks names results nest = Inr res"
  | (visit) dep r' where "name \<notin> set results" "map_of tasks name = Some dep"
      "name \<notin> set nest" "sequence tasks dep results (nest @ [name]) = Inr r'"
      "sequence tasks names (r' @ [name]) nest = Inr res"
  using assms by (auto split: option.splits if_splits sum.splits)

lemma sequence_extends:
  "sequence tasks names results nest = Inr res \<Longrightarrow> \<exists>added. res = results @ added"
proof (induction tasks names results nest arbitrary: res rule: sequence.induct)
  case (1 tasks results nest)
  then show ?case by simp
next
  case (2 tasks name names results nest)
  from "2.prems" show ?case
  proof (cases rule: sequence_Cons_cases)
    case seen
    with "2.IH"(1) show ?thesis by simp
  next
    case (visit dep r')
    from "2.IH"(2) [OF visit(1-4)] obtain a where "r' = results @ a" by blast
    moreover from "2.IH"(3) [OF visit] obtain b where "res = (r' @ [name]) @ b"
      by blast
    ultimately show ?thesis by simp
  qed
qed

lemma sequence_keeps: "sequence tasks names results nest = Inr res \<Longrightarrow> set results \<subseteq> set res"
  using sequence_extends by fastforce

lemma sequence_places_names:
  "sequence tasks names results nest = Inr res \<Longrightarrow> set names \<subseteq> set res"
proof (induction tasks names results nest arbitrary: res rule: sequence.induct)
  case (1 tasks results nest)
  then show ?case by simp
next
  case (2 tasks name names results nest)
  from "2.prems" show ?case
  proof (cases rule: sequence_Cons_cases)
    case seen
    with "2.IH"(1) sequence_keeps [OF seen(2)] show ?thesis by auto
  next
    case (visit dep r')
    from sequence_keeps [OF visit(5)] have "name \<in> set res" by simp
    with "2.IH"(3) [OF visit] show ?thesis by simp
  qed
qed

lemma sequence_avoids_nest:
  "sequence tasks names results nest = Inr res \<Longrightarrow> set res \<inter> set nest \<subseteq> set results"
proof (induction tasks names results nest arbitrary: res rule: sequence.induct)
  case (1 tasks results nest)
  then show ?case by auto
next
  case (2 tasks name names results nest)
  from "2.prems" show ?case
  proof (cases rule: sequence_Cons_cases)
    case seen
    with "2.IH"(1) show ?thesis by simp
  next
    case (visit dep r')
    from "2.IH"(2) [OF visit(1-4)] have "set r' \<inter> set (nest @ [name]) \<subseteq> set results" .
    moreover from "2.IH"(3) [OF visit] have "set res \<inter> set nest \<subseteq> set (r' @ [name])" .
    ultimately show ?thesis using visit(3) by auto
  qed
qed

lemma sequence_distinct:
  "sequence tasks names results nest = Inr res \<Longrightarrow> distinct results \<Longrightarrow> distinct res"
proof (induction tasks names results nest arbitrary: res rule: sequence.induct)
  case (1 tasks results nest)
  then show ?case by simp
next
  case (2 tasks name names results nest)
  from "2.prems"(1) show ?case
  proof (cases rule: sequence_Cons_cases)
    case seen
    with "2.IH"(1) "2.prems"(2) show ?thesis by simp
  next
    case (visit dep r')
    from "2.IH"(2) [OF visit(1-4) "2.prems"(2)] have "distinct r'" .
    moreover from sequence_avoids_nest [OF visit(4)] visit(1) have "name \<notin> set r'"
      by auto
    ultimately have "distinct (r' @ [name])" by simp
    with "2.IH"(3) [OF visit] show ?thesis .
  qed
qed

lemma prereqs_first_snoc:
  "prereqs_first tasks done (xs @ [t]) =
     (prereqs_first tasks done xs \<and> set (deps_of tasks t) \<subseteq> set done \<union> set xs)"
  by (induction xs arbitrary: "done") (auto simp: list_all_iff)

lemma sequence_ordered:
  "sequence tasks names results nest = Inr res \<Longrightarrow> prereqs_first tasks [] results
     \<Longrightarrow> prereqs_first tasks [] res"
proof (induction tasks names results nest arbitrary: res rule: sequence.induct)
  case (1 tasks results nest)
  then show ?case by simp
next
  case (2 tasks name names results nest)
  from "2.prems"(1) show ?case
  proof (cases rule: sequence_Cons_cases)
    case seen
    with "2.IH"(1) "2.prems"(2) show ?thesis by simp
  next
    case (visit dep r')
    from "2.IH"(2) [OF visit(1-4) "2.prems"(2)] have "prereqs_first tasks [] r'" .
    moreover from sequence_places_names [OF visit(4)] visit(2)
    have "set (deps_of tasks name) \<subseteq> set r'"
      by (simp add: deps_of_def)
    ultimately have "prereqs_first tasks [] (r' @ [name])"
      by (simp add: prereqs_first_snoc)
    with "2.IH"(3) [OF visit] show ?thesis .
  qed
qed

lemma sequence_reachable:
  "sequence tasks names results nest = Inr res
     \<Longrightarrow> set res \<subseteq> set results \<union> (prereq_rel tasks)\<^sup>* `` set names"
proof (induction tasks names results nest arbitrary: res rule: sequence.induct)
  case (1 tasks results nest)
  then show ?case by simp
next
  case (2 tasks name names results nest)
  from "2.prems" show ?case
  proof (cases rule: sequence_Cons_cases)
    case seen
    with "2.IH"(1) show ?thesis by auto
  next
    case (visit dep r')
    have step: "(prereq_rel tasks)\<^sup>* `` set dep \<subseteq> (prereq_rel tasks)\<^sup>* `` {name}"
    proof
      fix x assume "x \<in> (prereq_rel tasks)\<^sup>* `` set dep"
      then obtain d where d: "d \<in> set dep" "(d, x) \<in> (prereq_rel tasks)\<^sup>*" by auto
      from d(1) visit(2) have "(name, d) \<in> prereq_rel tasks"
        by (simp add: prereq_rel_def deps_of_def)
      with d(2) show "x \<in> (prereq_rel tasks)\<^sup>* `` {name}"
        by (auto intro: converse_rtrancl_into_rtrancl)
    qed
    from "2.IH"(2) [OF visit(1-4)]
    have "set r' \<subseteq> set results \<union> (prereq_rel tasks)\<^sup>* `` set dep" .
    moreover from "2.IH"(3) [OF visit]
    have "set res \<subseteq> set (r' @ [name]) \<union> (prereq_rel tasks)\<^sup>* `` set names" .
    moreover have "(prereq_rel tasks)\<^sup>* `` {name} \<subseteq> (prereq_rel tasks)\<^sup>* `` set (name # names)"
      and "(prereq_rel tasks)\<^sup>* `` set names \<subseteq> (prereq_rel tasks)\<^sup>* `` set (name # names)"
      and "name \<in> (prereq_rel tasks)\<^sup>* `` set (name # names)"
      by auto
    ultimately show ?thesis using step by (simp add: subset_iff) blast
  qed
qed

lemma prereqs_first_closed:
  assumes "prereqs_first tasks [] seq" and "t \<in> set seq" and "(t, d) \<in> (prereq_rel tasks)\<^sup>*"
  shows "d \<in> set seq"
proof -
  have direct: "set (deps_of tasks x) \<subseteq> set done \<union> set xs"
    if "prereqs_first tasks done xs" "x \<in> set xs" for x xs "done"
    using that
  proof (induction xs arbitrary: "done")
    case Nil
    then show ?case by simp
  next
    case (Cons y ys)
    show ?case
    proof (cases "x = y")
      case True
      with Cons.prems show ?thesis by (auto simp: list_all_iff)
    next
      case False
      with Cons.prems have "prereqs_first tasks (done @ [y]) ys" "x \<in> set ys" by simp_all
      from Cons.IH [OF this] show ?thesis by auto
    qed
  qed
  from assms(3) assms(2) show ?thesis
  proof (induction rule: rtrancl_induct)
    case base
    then show ?case .
  next
    case (step y z)
    from step.IH [OF step.prems] have "y \<in> set seq" .
    from direct [OF assms(1) this] step.hyps(2) show ?case
      by (auto simp: prereq_rel_def)
  qed
qed

lemma sequence_of_one:
  assumes "sequence tasks [name] [] [] = Inr seq"
  shows "distinct seq" and "set seq = insert name (prereqs_of tasks name)"
    and "prereqs_first tasks [] seq" and "seq \<noteq> []" and "last seq = name"
proof -
  show "distinct seq"
    using sequence_distinct [OF assms] by simp
  show ordered: "prereqs_first tasks [] seq"
    using sequence_ordered [OF assms] by simp
  have "set seq \<subseteq> (prereq_rel tasks)\<^sup>* `` {name}"
    using sequence_reachable [OF assms] by simp
  moreover have "name \<in> set seq"
    using sequence_places_names [OF assms] by simp
  then have "(prereq_rel tasks)\<^sup>* `` {name} \<subseteq> set seq"
    using prereqs_first_closed [OF ordered] by auto
  moreover have "(prereq_rel tasks)\<^sup>* `` {name} = insert name (prereqs_of tasks name)"
    by (auto simp: prereqs_of_def rtrancl_eq_or_trancl)
  ultimately show "set seq = insert name (prereqs_of tasks name)"
    by blast
  from assms obtain r' where "seq = r' @ [name]"
    by (cases rule: sequence_Cons_cases) auto
  then show "seq \<noteq> []" and "last seq = name"
    by simp_all
qed

lemma sequence_no_cycle:
  assumes "acyclic (prereq_rel tasks)"
    and "\<forall>x \<in> set nest. \<forall>n \<in> set names. (x, n) \<in> (prereq_rel tasks)\<^sup>+"
  shows "sequence tasks names results nest \<noteq> Inl (CyclicDependencyError e)"
  using assms
proof (induction tasks names results nest rule: sequence.induct)
  case (1 tasks results nest)
  then show ?case by simp
next
  case (2 tasks name names results nest)
  let ?R = "prereq_rel tasks"
  from "2.prems" have rest: "\<forall>x \<in> set nest. \<forall>n \<in> set names. (x, n) \<in> ?R\<^sup>+"
    by simp
  show ?case
  proof (cases "name \<in> set results")
    case True
    with "2.IH"(1) [OF True "2.prems"(1) rest] show ?thesis by simp
  next
    case False
    show ?thesis
    proof (cases "map_of tasks name")
      case None
      with False show ?thesis by simp
    next
      case (Some dep)
      have fresh: "name \<notin> set nest"
      proof
        assume "name \<in> set nest"
        with "2.prems"(2) have "(name, name) \<in> ?R\<^sup>+" by simp
        with "2.prems"(1) show False by (simp add: acyclic_def)
      qed
      have below: "\<forall>x \<in> set (nest @ [name]). \<forall>n \<in> set dep. (x, n) \<in> ?R\<^sup>+"
      proof (intro ballI)
        fix x n assume x: "x \<in> set (nest @ [name])" and n: "n \<in> set dep"
        from n Some have edge: "(name, n) \<in> ?R"
          by (simp add: prereq_rel_def deps_of_def)
        show "(x, n) \<in> ?R\<^sup>+"
        proof (cases "x = name")
          case True
          with edge show ?thesis by auto
        next
          case False
          with x have "x \<in> set nest" by simp
          with "2.prems"(2) have "(x, name) \<in> ?R\<^sup>+" by simp
          with edge show ?thesis by (auto intro: trancl_into_trancl)
        qed
      qed
      note inner = "2.IH"(2) [OF False Some fresh "2.prems"(1) below]
      show ?thesis
      proof (cases "sequence tasks dep results (nest @ [name])")
        case (Inl err)
        with inner False Some fresh show ?thesis by simp
      next
        case (Inr r')
        from "2.IH"(3) [OF False Some fresh Inr "2.prems"(1) rest]
        show ?thesis using False Some fresh Inr by simp
      qed
    qed
  qed
qed

lemma gulp_edges:
  "(t, d) \<in> prereq_rel gulp_tasks \<Longrightarrow>
     (t, d) \<in> set [(''doc'', ''pages''), (''lint'', ''jshint''), (''lint'', ''tslint''),
       (''test'', ''coverage''), (''test'', ''lint''), (''bundle'', ''copy''),
       (''copy'', ''scripts''), (''coverage'', ''spec''), (''pages'', ''typedoc''),
       (''scripts'', ''clean''), (''scripts'', ''tslint''), (''spec'', ''scripts''),
       (''typedoc'', ''clean'')]"
  unfolding prereq_rel_def deps_of_def gulp_tasks_def
  by (simp split: if_splits)

lemma gulp_tasks_ranked:
  "\<exists>level :: string \<Rightarrow> nat. \<forall>t d. (t, d) \<in> prereq_rel gulp_tasks \<longrightarrow> level d < level t"
proof -
  define level :: "string \<Rightarrow> nat" where
    "level = (\<lambda>t. if t = ''test'' then 4
               else if t = ''coverage'' \<or> t = ''bundle'' \<or> t = ''doc'' then 3
               else if t = ''spec'' \<or> t = ''copy'' \<or> t = ''pages'' then 2
               else if t = ''scripts'' \<or> t = ''typedoc'' \<or> t = ''lint'' then 1
               else 0)"
  have "level d < level t" if "(t, d) \<in> prereq_rel gulp_tasks" for t d
    using gulp_edges [OF that] unfolding level_def
    by (elim set_ConsD [elim_format] disjE) simp_all
  then show ?thesis by blast
qed

lemma gulp_tasks_wf: "wf ((prereq_rel gulp_tasks)\<inverse>)"
proof -
  from gulp_tasks_ranked obtain level :: "string \<Rightarrow> nat"
    where "\<forall>t d. (t, d) \<in> prereq_rel gulp_tasks \<longrightarrow> level d < level t" by blast
  then have "(prereq_rel gulp_tasks)\<inverse> \<subseteq> measure level"
    by auto
  then show ?thesis
    by (rule wf_subset [OF wf_measure])
qed

lemma gulp_tasks_acyclic: "acyclic (prereq_rel gulp_tasks)"
  using gulp_tasks_wf wf_acyclic acyclic_converse by blast

lemma gulp_tasks_resolve_all:
  "list_all (\<lambda>name. \<exists>seq. sequence gulp_tasks [name] [] [] = Inr seq) (map fst gulp_tasks)"
  by (simp add: gulp_tasks_def)

text \<open>
  C10. No chain of prerequisites of the declared tasks goes on forever, the graph has
  no cycle, and resolving a name, declared or not, never ends in the error of a cyclic
  dependency; \<^verbatim>\<open>clean\<close>, \<^verbatim>\<open>tslint\<close>, \<^verbatim>\<open>jshint\<close> and \<^verbatim>\<open>format\<close> have no
  prerequisites.
\<close>

theorem gulp_tasks_no_cycle:
  "wf ((prereq_rel gulp_tasks)\<inverse>) \<and> acyclic (prereq_rel gulp_tasks) \<and>
   (\<forall>name e. sequence gulp_tasks [name] [] [] \<noteq> Inl (CyclicDependencyError e)) \<and>
   deps_of gulp_tasks ''clean'' = [] \<and> deps_of gulp_tasks ''tslint'' = [] \<and>
   deps_of gulp_tasks ''jshint'' = [] \<and> deps_of gulp_tasks ''format'' = []"
proof (intro conjI allI)
  show "wf ((prereq_rel gulp_tasks)\<inverse>)"
    by (rule gulp_tasks_wf)
  show "acyclic (prereq_rel gulp_tasks)"
    by (rule gulp_tasks_acyclic)
  show "sequence gulp_tasks [name] [] [] \<noteq> Inl (CyclicDependencyError e)" for name e
    by (rule sequence_no_cycle [OF gulp_tasks_acyclic]) simp
  show "deps_of gulp_tasks ''clean'' = []" "deps_of gulp_tasks ''tslint'' = []"
    "deps_of gulp_tasks ''jshint'' = []" "deps_of gulp_tasks ''format'' = []"
    by (simp_all add: deps_of_def gulp_tasks_def)
qed

text \<open>
  C5. For every task the gulpfile declares, the sequence of a run of that task exists
  and holds the task and each of its transitive prerequisites exactly once, every
  prerequisite before the task that needs it. In a run of \<^verbatim>\<open>test\<close>, \<^verbatim>\<open>tslint\<close> is
  reached through \<^verbatim>\<open>scripts\<close> first and not placed again for \<^verbatim>\<open>lint\<close>; when
  \<^verbatim>\<open>test\<close> and \<^verbatim>\<open>doc\<close> are run together, \<^verbatim>\<open>clean\<close> is placed for \<^verbatim>\<open>scripts\<close> and
  not again for \<^verbatim>\<open>typedoc\<close>.
\<close>

theorem run_order:
  "(name \<in> set (map fst gulp_tasks) \<longrightarrow>
      (\<exists>seq. sequence gulp_tasks [name] [] [] = Inr seq \<and> distinct seq \<and>
         set seq = insert name (prereqs_of gulp_tasks name) \<and>
         prereqs_first gulp_tasks [] seq)) \<and>
   sequence gulp_tasks [''test''] [] [] =
     Inr [''clean'', ''tslint'', ''scripts'', ''spec'', ''coverage'', ''jshint'', ''lint'',
          ''test''] \<and>
   sequence gulp_tasks [''test'', ''doc''] [] [] =
     Inr [''clean'', ''tslint'', ''scripts'', ''spec'', ''coverage'', ''jshint'', ''lint'',
          ''test'', ''typedoc'', ''pages'', ''doc'']"
proof (intro conjI impI)
  assume "name \<in> set (map fst gulp_tasks)"
  with gulp_tasks_resolve_all obtain seq where seq: "sequence gulp_tasks [name] [] [] = Inr seq"
    unfolding list_all_iff by blast
  from sequence_of_one(1-3) [OF seq] seq
  show "\<exists>seq. sequence gulp_tasks [name] [] [] = Inr seq \<and> distinct seq \<and>
         set seq = insert name (prereqs_of gulp_tasks name) \<and>
         prereqs_first gulp_tasks [] seq"
    by blast
next
  show "sequence gulp_tasks [''test''] [] [] =
     Inr [''clean'', ''tslint'', ''scripts'', ''spec'', ''coverage'', ''jshint'', ''lint'',
          ''test'']"
    by (simp add: gulp_tasks_def)
next
  show "sequence gulp_tasks [''test'', ''doc''] [] [] =
     Inr [''clean'', ''tslint'', ''scripts'', ''spec'', ''coverage'', ''jshint'', ''lint'',
          ''test'', ''typedoc'', ''pages'', ''doc'']"
    by (simp add: gulp_tasks_def)
qed

theorem run_order_witness:
  "''test'' \<in> set (map fst gulp_tasks) \<and>
   (\<exists>seq. sequence gulp_tasks [''test''] [] [] = Inr seq \<and> distinct seq \<and>
      set seq = insert ''test'' (prereqs_of gulp_tasks ''test'') \<and>
      prereqs_first gulp_tasks [] seq) \<and>
   insert ''test'' (prereqs_of gulp_tasks ''test'') =
     {''clean'', ''tslint'', ''scripts'', ''spec'', ''coverage'', ''jshint'', ''lint'', ''test''}"
proof -
  have declared: "''test'' \<in> set (map fst gulp_tasks)"
    by (simp add: gulp_tasks_def)
  with run_order [of "''test''"] obtain seq where
    seq: "sequence gulp_tasks [''test''] [] [] = Inr seq" "distinct seq"
      "set seq = insert ''test'' (prereqs_of gulp_tasks ''test'')"
      "prereqs_first gulp_tasks [] seq"
    and test: "sequence gulp_tasks [''test''] [] [] =
      Inr [''clean'', ''tslint'', ''scripts'', ''spec'', ''coverage'', ''jshint'', ''lint'',
           ''test'']"
    by blast
  from seq(1) test have "seq = [''clean'', ''tslint'', ''scripts'', ''spec'', ''coverage'',
      ''jshint'', ''lint'', ''test'']"
    by simp
  with seq(3) have "insert ''test'' (prereqs_of gulp_tasks ''test'') =
     {''clean'', ''tslint'', ''scripts'', ''spec'', ''coverage'', ''jshint'', ''lint'', ''test''}"
    by auto
  with declared seq show ?thesis
    by blast
qed

subsection \<open>What the accessors return\<close>

lemma returns_ret: "returns W (ret v) v"
  by (simp add: returns_def ret_def)

lemma returns_lift: "returns W (lift (Inr v)) v"
  by (simp add: returns_def lift_def)

lemma returns_bind:
  assumes "returns W m v" and "returns W (k v) r"
  shows "returns W (bind m k) r"
  unfolding returns_def
proof (intro allI impI)
  fix s assume s: "store_ok s \<and> world s = W"
  with assms(1) obtain s1 where s1: "m s = (Inr v, s1)" "store_ok s1" "world s1 = W"
    "files s1 = files s"
    unfolding returns_def by blast
  with assms(2) obtain s2 where "k v s1 = (Inr r, s2)" "store_ok s2" "world s2 = W"
    "files s2 = files s1"
    unfolding returns_def by blast
  with s1 show "\<exists>s'. bind m k s = (Inr r, s') \<and> store_ok s' \<and> world s' = W \<and> files s' = files s"
    by (simp add: bind_def)
qed

lemma returns_cell:
  assumes "returns W fn v" and "cell_value W c = v"
  shows "returns W (cell_acc c fn) v"
  unfolding returns_def
proof (intro allI impI)
  fix s assume s: "store_ok s \<and> world s = W"
  show "\<exists>s'. cell_acc c fn s = (Inr v, s') \<and> store_ok s' \<and> world s' = W \<and> files s' = files s"
  proof (cases "store s c = Undefined")
    case True
    from assms s obtain s1 where s1: "fn s = (Inr v, s1)" "store_ok s1"
      "world s1 = W" "files s1 = files s"
      unfolding returns_def by blast
    have "store_ok (s1\<lparr>store := (store s1)(c := v)\<rparr>)"
      using s1(2,3) assms(2) by (simp add: store_ok_def world_def)
    with True s1 show ?thesis
      by (simp add: cell_acc_def val_def world_def)
  next
    case False
    with s assms(2) have held: "store s c = v"
      by (auto simp: store_ok_def)
    have "s\<lparr>store := (store s)(c := store s c)\<rparr> = s"
      by simp
    with False s held show ?thesis
      by (simp add: cell_acc_def val_def del: fun_upd_triv)
  qed
qed

lemma path_join_values:
  "path_join [Str ''coverage'', Str ''**'', Str ''lcov.info''] = Inr (Str ''coverage/**/lcov.info'')"
  "path_join [Str ''doc'', Str ''**'', Str ''*''] = Inr (Str ''doc/**/*'')"
  "path_join [Str ''src'', Str ''**'', Str ''*.ts''] = Inr (Str ''src/**/*.ts'')"
  "path_join [Str ''_build'', Str ''src'', Str ''**'', Str ''*.js''] = Inr (Str ''_build/src/**/*.js'')"
  "path_join [Str ''_build'', Str ''test'', Str ''**'', Str ''*.js''] = Inr (Str ''_build/test/**/*.js'')"
  "path_join [Str ''_build'', Str ''src'', Str ''**'', Str ''*.d.ts''] = Inr (Str ''_build/src/**/*.d.ts'')"
  by (simp_all add: path_join_def normalize_def normalize_step_def)

lemma env_task_returns:
  "returns (seq, env, cwd) env_task (if seq = [] then Undefined else Str (last seq))"
  unfolding env_task_def by (rule returns_cell) (simp_all add: returns_def world_def)

lemma env_isTest_returns:
  "returns (seq, env, cwd) env_isTest (Bool (seq \<noteq> [] \<and> last seq = ''test''))"
proof -
  have "returns (seq, env, cwd) (bind env_task (\<lambda>t. ret (Bool (t = Str ''test''))))
          (Bool ((if seq = [] then Undefined else Str (last seq)) = Str ''test''))"
    by (rule returns_bind [OF env_task_returns]) (rule returns_ret)
  then show ?thesis
    unfolding env_isTest_def by (intro returns_cell) (auto split: if_splits)
qed

lemma env_isTravis_returns:
  "returns (seq, env, cwd) env_isTravis (Bool (env ''TRAVIS'' \<noteq> None))"
  unfolding env_isTravis_def by (rule returns_cell) (simp_all add: returns_def world_def)

lemma env_name_returns: "returns (seq, env, cwd) env_name (Str ''tsutil'')"
  unfolding env_name_def by (rule returns_cell) (simp_all add: returns_ret)

lemma env_pagesUrl_returns:
  "returns (seq, env, cwd) env_pagesUrl
     (case env ''PAGES_URL'' of None \<Rightarrow> Undefined | Some u \<Rightarrow> Str u)"
  unfolding env_pagesUrl_def by (rule returns_cell) (simp_all add: returns_def world_def)

lemma globs_build_returns: "returns (seq, env, cwd) globs_build (Str ''_build'')"
  unfolding globs_build_def by (rule returns_cell) (simp_all add: returns_ret)

lemma globs_bundle_returns: "returns (seq, env, cwd) globs_bundle (Str ''index.d.ts'')"
  unfolding globs_bundle_def by (rule returns_cell) (simp_all add: returns_ret)

lemma globs_coverage_returns:
  "returns (seq, env, cwd) globs_coverage (Str ''coverage/**/lcov.info'')"
  unfolding globs_coverage_def
  by (rule returns_cell) (simp_all add: path_join_values returns_lift)

lemma globs_dist_returns: "returns (seq, env, cwd) globs_dist (Str cwd)"
  unfolding globs_dist_def by (rule returns_cell) (simp_all add: returns_def world_def)

lemma globs_doc_returns: "returns (seq, env, cwd) globs_doc (Str ''doc'')"
  unfolding globs_doc_def by (rule returns_cell) (simp_all add: returns_ret)

lemma globs_gulp_returns: "returns (seq, env, cwd) globs_gulp (Str ''gulpfile.js'')"
  unfolding globs_gulp_def by (rule returns_cell) (simp_all add: returns_ret)

lemma globs_src_returns: "returns (seq, env, cwd) globs_src (Str ''src'')"
  unfolding globs_src_def by (rule returns_cell) (simp_all add: returns_ret)

lemma globs_test_returns: "returns (seq, env, cwd) globs_test (Str ''test'')"
  unfolding globs_test_def by (rule returns_cell) (simp_all add: returns_ret)

lemma globs_docs_returns: "returns (seq, env, cwd) globs_docs (Str ''doc/**/*'')"
  unfolding globs_docs_def
  by (rule returns_cell, rule returns_bind [OF globs_doc_returns])
     (simp_all add: path_join_values returns_lift)

lemma globs_lib_returns: "returns (seq, env, cwd) globs_lib (Str ''src/**/*.ts'')"
  unfolding globs_lib_def
  by (rule returns_cell, rule returns_bind [OF globs_src_returns])
     (simp_all add: path_join_values returns_lift)

lemma globs_scripts_returns: "returns (seq, env, cwd) globs_scripts (Str ''_build/src/**/*.js'')"
  unfolding globs_scripts_def
  by (rule returns_cell, rule returns_bind [OF globs_build_returns], rule returns_bind [OF globs_src_returns])
     (simp_all add: path_join_values returns_lift)

lemma globs_tests_returns: "returns (seq, env, cwd) globs_tests (Str ''_build/test/**/*.js'')"
  unfolding globs_tests_def
  by (rule returns_cell, rule returns_bind [OF globs_build_returns], rule returns_bind [OF globs_test_returns])
     (simp_all add: path_join_values returns_lift)

lemma globs_ts_returns: "returns (seq, env, cwd) globs_ts (Str ''{src,test}/**/*.ts'')"
  unfolding globs_ts_def
  by (rule returns_cell, rule returns_bind [OF globs_src_returns], rule returns_bind [OF globs_test_returns])
     (simp_all add: path_join_def normalize_def normalize_step_def returns_lift)

lemma globs_types_returns: "returns (seq, env, cwd) globs_types (Str ''_build/src/**/*.d.ts'')"
  unfolding globs_types_def
  by (rule returns_cell, rule returns_bind [OF globs_build_returns], rule returns_bind [OF globs_src_returns])
     (simp_all add: path_join_values returns_lift)

lemma globs_dts_returns:
  "returns (seq, env, cwd) globs_dts
     (Arr [Str ''{src,test}/**/*.ts'', Str ''lib/**/*.d.ts'', Str ''typings/**/*.d.ts''])"
  unfolding globs_dts_def
  by (rule returns_cell, rule returns_bind [OF globs_ts_returns])
     (simp_all add: returns_ret)

lemma access_returns: "returns (seq, env, cwd) (access c) (cell_value (seq, env, cwd) c)"
  by (cases c)
    (simp_all only: access.simps cell_value.simps env_task_returns env_isTest_returns env_isTravis_returns env_name_returns
      env_pagesUrl_returns globs_build_returns globs_bundle_returns globs_coverage_returns
      globs_dist_returns globs_doc_returns globs_gulp_returns globs_src_returns
      globs_test_returns globs_docs_returns globs_lib_returns globs_scripts_returns
      globs_tests_returns globs_ts_returns globs_types_returns globs_dts_returns)

lemma returns_result:
  assumes "returns W m v" and "store_ok s" and "world s = W"
  shows "fst (m s) = Inr v" and "store_ok (snd (m s))" and "world (snd (m s)) = W"
    and "files (snd (m s)) = files s"
proof -
  from assms obtain s' where "m s = (Inr v, s')" "store_ok s'" "world s' = W" "files s' = files s"
    unfolding returns_def by blast
  then show "fst (m s) = Inr v" and "store_ok (snd (m s))" and "world (snd (m s)) = W"
    and "files (snd (m s)) = files s"
    by simp_all
qed

lemma accesses_ok:
  assumes "store_ok s" and "world s = (seq, env, cwd)"
  shows "store_ok (accesses cs s) \<and> world (accesses cs s) = (seq, env, cwd)
           \<and> files (accesses cs s) = files s"
  using assms
proof (induction cs arbitrary: s)
  case Nil
  then show ?case by simp
next
  case (Cons c cs)
  note step = returns_result [OF access_returns Cons.prems]
  from Cons.IH [OF step(2) step(3)] step(4) show ?case
    by simp
qed

lemma reached_ok:
  "store_ok (reached cs seq env cwd fs)" "world (reached cs seq env cwd fs) = (seq, env, cwd)"
  "files (reached cs seq env cwd fs) = fs"
proof -
  have "store_ok ((loaded env cwd fs)\<lparr>gulp_seq := seq\<rparr>)"
    and "world ((loaded env cwd fs)\<lparr>gulp_seq := seq\<rparr>) = (seq, env, cwd)"
    by (simp_all add: store_ok_def world_def loaded_def)
  from accesses_ok [OF this, of cs]
  show "store_ok (reached cs seq env cwd fs)" "world (reached cs seq env cwd fs) = (seq, env, cwd)"
    "files (reached cs seq env cwd fs) = fs"
    by (simp_all add: reached_def loaded_def)
qed

lemma reached_returns:
  "returns (seq, env, cwd) m v \<Longrightarrow> fst (m (reached cs seq env cwd fs)) = Inr v"
  by (rule returns_result(1) [OF _ reached_ok(1,2)])

lemma copy_action_returns:
  "returns (seq, env, cwd) copy_action
     (Arr [Str ''_build/src/**/*.js'', Str ''_build/src/**/*.d.ts''], Str cwd)"
  unfolding copy_action_def
  by (rule returns_bind [OF globs_scripts_returns], rule returns_bind [OF globs_types_returns],
      rule returns_bind [OF globs_dist_returns], rule returns_ret)

lemma pages_action_returns:
  "returns (seq, env, cwd) pages_action
     (Str ''doc/**/*'', case env ''PAGES_URL'' of None \<Rightarrow> Undefined | Some u \<Rightarrow> Str u)"
  unfolding pages_action_def
  by (rule returns_bind [OF globs_docs_returns], rule returns_bind [OF env_pagesUrl_returns],
      rule returns_ret)

text \<open>
  C8. In every state the process reaches, whatever accessors were called before:
  \<^verbatim>\<open>globs.ts()\<close>, \<^verbatim>\<open>globs.scripts()\<close>, \<^verbatim>\<open>globs.types()\<close> and \<^verbatim>\<open>globs.docs()\<close>
  return the four strings, \<^verbatim>\<open>globs.dist()\<close> returns the working directory, and
  \<^verbatim>\<open>copy\<close> reads the compiled scripts and the declaration files and writes to the
  working directory.
\<close>

theorem globs_resolve:
  "fst (globs_ts (reached cs seq env cwd fs)) = Inr (Str ''{src,test}/**/*.ts'') \<and>
   fst (globs_scripts (reached cs seq env cwd fs)) = Inr (Str ''_build/src/**/*.js'') \<and>
   fst (globs_types (reached cs seq env cwd fs)) = Inr (Str ''_build/src/**/*.d.ts'') \<and>
   fst (globs_docs (reached cs seq env cwd fs)) = Inr (Str ''doc/**/*'') \<and>
   fst (globs_dist (reached cs seq env cwd fs)) = Inr (Str cwd) \<and>
   fst (copy_action (reached cs seq env cwd fs)) =
     Inr (Arr [Str ''_build/src/**/*.js'', Str ''_build/src/**/*.d.ts''], Str cwd)"
  by (simp add: reached_returns [OF globs_ts_returns] reached_returns [OF globs_scripts_returns]
      reached_returns [OF globs_types_returns] reached_returns [OF globs_docs_returns]
      reached_returns [OF globs_dist_returns] reached_returns [OF copy_action_returns])

text \<open>
  C9. In every state the process reaches: \<^verbatim>\<open>env.isTravis()\<close> is true exactly when
  \<^verbatim>\<open>TRAVIS\<close> is set, whatever its value; \<^verbatim>\<open>env.pagesUrl()\<close> is the value of
  \<^verbatim>\<open>PAGES_URL\<close> as it is (\<^verbatim>\<open>undefined\<close> when it is not set), and \<^verbatim>\<open>pages\<close> gives
  it as \<^verbatim>\<open>remoteUrl\<close> to the publishing plugin, with the glob of the documentation
  as source.
\<close>

theorem env_travis_pages:
  "fst (env_isTravis (reached cs seq env cwd fs)) = Inr (Bool (env ''TRAVIS'' \<noteq> None)) \<and>
   fst (env_pagesUrl (reached cs seq env cwd fs)) =
     Inr (case env ''PAGES_URL'' of None \<Rightarrow> Undefined | Some u \<Rightarrow> Str u) \<and>
   fst (pages_action (reached cs seq env cwd fs)) =
     Inr (Str ''doc/**/*'', case env ''PAGES_URL'' of None \<Rightarrow> Undefined | Some u \<Rightarrow> Str u)"
  by (simp only: reached_returns [OF env_isTravis_returns] reached_returns [OF env_pagesUrl_returns]
      reached_returns [OF pages_action_returns] simp_thms)

theorem env_travis_pages_witness:
  "fst (env_isTravis (reached [E_isTravis, E_pagesUrl] []
          [''TRAVIS'' \<mapsto> ''false'', ''PAGES_URL'' \<mapsto> ''git@host:me/tsutil.git''] ''/repo'' Map.empty))
     = Inr (Bool True) \<and>
   fst (pages_action (reached [E_isTravis, E_pagesUrl] []
          [''TRAVIS'' \<mapsto> ''false'', ''PAGES_URL'' \<mapsto> ''git@host:me/tsutil.git''] ''/repo'' Map.empty))
     = Inr (Str ''doc/**/*'', Str ''git@host:me/tsutil.git'')"
  using env_travis_pages [of "[E_isTravis, E_pagesUrl]" "[]"
     "[''TRAVIS'' \<mapsto> ''false'', ''PAGES_URL'' \<mapsto> ''git@host:me/tsutil.git'']" "''/repo''" Map.empty]
  by simp

subsection \<open>The requested task\<close>

lemma cell_acc_stores: "cell_acc c fn s = (Inr v, s') \<Longrightarrow> store s' c = v"
  by (auto simp: cell_acc_def val_def split: if_splits prod.splits sum.splits)

lemma cell_acc_stored:
  assumes "store s c = v" and "v \<noteq> Undefined"
  shows "cell_acc c fn s = (Inr v, s)"
proof -
  have "s\<lparr>store := (store s)(c := store s c)\<rparr> = s"
    by simp
  with assms show ?thesis
    by (simp add: cell_acc_def val_def del: fun_upd_triv)
qed

lemma started_state:
  assumes "start tasks name (loaded env cwd fs) = Inr s0"
  obtains seq where "s0 = (loaded env cwd fs)\<lparr>gulp_seq := seq\<rparr>" "seq \<noteq> []" "last seq = name"
proof -
  from assms obtain seq where seq: "sequence tasks [name] [] [] = Inr seq"
    and s0: "s0 = (loaded env cwd fs)\<lparr>gulp_seq := seq\<rparr>"
    by (auto simp: start_def split: sum.splits)
  from sequence_of_one(4,5) [OF seq] s0 that show ?thesis
    by blast
qed

text \<open>
  C2. When the runner starts a run of the requested task \<open>name\<close>, the state \<open>s0\<close> in
  which the actions of the run execute holds the resolved sequence, whose last element
  is \<open>name\<close>. From then on, whatever accessors the actions call, \<^verbatim>\<open>env.task()\<close>
  returns \<open>name\<close> and \<^verbatim>\<open>env.isTest()\<close> returns whether \<open>name\<close> is \<^verbatim>\<open>test\<close>; once
  \<^verbatim>\<open>env.isTest()\<close> has been evaluated its answer stays, even if \<^verbatim>\<open>gulp.seq\<close> were
  changed afterwards.
\<close>

theorem task_recorded:
  assumes "start tasks name (loaded env cwd fs) = Inr s0"
  shows "gulp_seq s0 \<noteq> [] \<and> last (gulp_seq s0) = name \<and>
         fst (env_task (accesses cs s0)) = Inr (Str name) \<and>
         fst (env_isTest (accesses cs s0)) = Inr (Bool (name = ''test'')) \<and>
         fst (env_isTest ((snd (env_isTest (accesses cs s0)))\<lparr>gulp_seq := later\<rparr>)) =
           Inr (Bool (name = ''test''))"
proof -
  from assms obtain seq where s0: "s0 = (loaded env cwd fs)\<lparr>gulp_seq := seq\<rparr>"
    and seq: "seq \<noteq> []" "last seq = name"
    by (rule started_state)
  have at: "accesses cs s0 = reached cs seq env cwd fs"
    by (simp add: reached_def s0)
  have task: "fst (env_task (accesses cs s0)) = Inr (Str name)"
    using reached_returns [OF env_task_returns, where cs = cs and fs = fs and seq = seq] seq
    by (simp add: at)
  have test: "fst (env_isTest (accesses cs s0)) = Inr (Bool (name = ''test''))"
    using reached_returns [OF env_isTest_returns, where cs = cs and fs = fs and seq = seq] seq
    by (simp add: at)
  obtain r s1 where call: "env_isTest (accesses cs s0) = (r, s1)"
    by (cases "env_isTest (accesses cs s0)")
  with test have "env_isTest (accesses cs s0) = (Inr (Bool (name = ''test'')), s1)"
    by simp
  then have "store s1 E_isTest = Bool (name = ''test'')"
    unfolding env_isTest_def by (rule cell_acc_stores)
  then have "store (s1\<lparr>gulp_seq := later\<rparr>) E_isTest = Bool (name = ''test'')"
    by simp
  then have "env_isTest (s1\<lparr>gulp_seq := later\<rparr>) =
      (Inr (Bool (name = ''test'')), s1\<lparr>gulp_seq := later\<rparr>)"
    unfolding env_isTest_def by (rule cell_acc_stored) simp
  with call have fixed: "fst (env_isTest ((snd (env_isTest (accesses cs s0)))\<lparr>gulp_seq := later\<rparr>)) =
           Inr (Bool (name = ''test''))"
    by simp
  from s0 seq task test fixed show ?thesis
    by simp
qed

theorem task_recorded_witness:
  "start gulp_tasks ''test'' (loaded Map.empty ''/repo'' Map.empty) =
     Inr ((loaded Map.empty ''/repo'' Map.empty)
            \<lparr>gulp_seq := [''clean'', ''tslint'', ''scripts'', ''spec'', ''coverage'', ''jshint'',
                          ''lint'', ''test'']\<rparr>) \<and>
   fst (env_task (accesses [E_isTravis] ((loaded Map.empty ''/repo'' Map.empty)
            \<lparr>gulp_seq := [''clean'', ''tslint'', ''scripts'', ''spec'', ''coverage'', ''jshint'',
                          ''lint'', ''test'']\<rparr>))) = Inr (Str ''test'') \<and>
   fst (env_isTest (accesses [E_isTravis] ((loaded Map.empty ''/repo'' Map.empty)
            \<lparr>gulp_seq := [''clean'', ''tslint'', ''scripts'', ''spec'', ''coverage'', ''jshint'',
                          ''lint'', ''test'']\<rparr>))) = Inr (Bool True) \<and>
   fst (env_isTest ((snd (env_isTest (accesses [E_isTravis] ((loaded Map.empty ''/repo'' Map.empty)
            \<lparr>gulp_seq := [''clean'', ''tslint'', ''scripts'', ''spec'', ''coverage'', ''jshint'',
                          ''lint'', ''test'']\<rparr>))))\<lparr>gulp_seq := [''clean'']\<rparr>)) = Inr (Bool True)"
proof -
  have started: "start gulp_tasks ''test'' (loaded Map.empty ''/repo'' Map.empty) =
     Inr ((loaded Map.empty ''/repo'' Map.empty)
            \<lparr>gulp_seq := [''clean'', ''tslint'', ''scripts'', ''spec'', ''coverage'', ''jshint'',
                          ''lint'', ''test'']\<rparr>)"
    by (simp add: start_def gulp_tasks_def)
  from task_recorded [OF started, of "[E_isTravis]" "[''clean'']"] started show ?thesis
    by simp
qed

subsection \<open>The events of \<^verbatim>\<open>scripts\<close>\<close>
















subsection \<open>\<^verbatim>\<open>clean\<close>, then \<^verbatim>\<open>scripts\<close>\<close>








end
